theory Spec2Isabelle
  imports Main "HOL-Library.Word"
begin

section \<open>The underlying queue of nm\_blocking\_bounded\_queue.c\<close>

text \<open>
  The C names end in an underscore (\<^verbatim>\<open>items_\<close>, \<^verbatim>\<open>queue_\<close>), which Isabelle does not
  accept in a name; every name below is the C name without that final underscore.

  \<^verbatim>\<open>size_t\<close> is the 64-bit unsigned integer of an LP64 build: \<open>+\<close>, \<open>-\<close> wrap around
  and \<open>-1\<close> is \<^verbatim>\<open>(size_t)-1\<close>. An item is an opaque \<^verbatim>\<open>void*\<close>, modelled by its address;
  \<^verbatim>\<open>NULL\<close> is address 0. A handle \<^verbatim>\<open>nm_queue*\<close> is \<open>nm_queue option\<close> with \<open>None\<close> for
  \<^verbatim>\<open>NULL\<close>; an operation returns the handle's target as it leaves it.
\<close>

type_synonym size_t = "64 word"
type_synonym ptr = "64 word"

abbreviation NULL :: ptr where
  "NULL \<equiv> 0"

abbreviation MAX_SIZE_T :: size_t where
  "MAX_SIZE_T \<equiv> - 1"

datatype nm_queue_status =
    NM_QUEUE_SUCCESS
  | NM_QUEUE_UNINITIALIZED_ERROR
  | NM_QUEUE_OVERFLOW_ERROR
  | NM_QUEUE_UNDERFLOW_ERROR

record nm_queue =
  items :: "ptr list"
  capacity :: size_t
  head :: size_t
  tail :: size_t
  items_count :: size_t

text \<open>
  \<^verbatim>\<open>nm_queue_create\<close>: the two allocations are the environment's; \<open>malloc_ok\<close> and
  \<open>calloc_ok\<close> say whether \<^verbatim>\<open>malloc\<close> and \<^verbatim>\<open>calloc\<close> return a block. \<^verbatim>\<open>calloc\<close> zeroes the
  array, so every slot starts as \<^verbatim>\<open>NULL\<close>.
\<close>

definition nm_queue_create :: "bool \<Rightarrow> bool \<Rightarrow> size_t \<Rightarrow> nm_queue option" where
  "nm_queue_create malloc_ok calloc_ok init_size =
     (if init_size = 0 then None
      else if \<not> malloc_ok then None
      else if \<not> calloc_ok then None
      else Some \<lparr>items = replicate (unat init_size) NULL,
                 capacity = init_size, head = 0, tail = 0, items_count = 0\<rparr>)"

definition nm_queue_enqueue :: "nm_queue option \<Rightarrow> ptr \<Rightarrow> nm_queue_status \<times> nm_queue option" where
  "nm_queue_enqueue queue item =
     (case queue of
        None \<Rightarrow> (NM_QUEUE_UNINITIALIZED_ERROR, None)
      | Some q \<Rightarrow>
          if item = NULL then (NM_QUEUE_UNINITIALIZED_ERROR, Some q)
          else if capacity q = items_count q then (NM_QUEUE_OVERFLOW_ERROR, Some q)
          else (NM_QUEUE_SUCCESS,
                Some (q\<lparr>items := (items q)[unat (tail q) := item],
                         tail := (tail q + 1) mod capacity q,
                         items_count := items_count q + 1\<rparr>)))"

text \<open>
  \<^verbatim>\<open>nm_queue_dequeue\<close>: the out-parameter \<^verbatim>\<open>item_ptr_\<close> is \<open>None\<close> when it is \<^verbatim>\<open>NULL\<close> and
  \<open>Some v\<close> when it points to a variable holding \<open>v\<close>; the third component of the
  result is that variable after the call.
\<close>

definition nm_queue_dequeue ::
  "nm_queue option \<Rightarrow> ptr option \<Rightarrow> nm_queue_status \<times> nm_queue option \<times> ptr option" where
  "nm_queue_dequeue queue item_ptr =
     (case queue of
        None \<Rightarrow> (NM_QUEUE_UNINITIALIZED_ERROR, None, item_ptr)
      | Some q \<Rightarrow>
          (case item_ptr of
             None \<Rightarrow> (NM_QUEUE_UNINITIALIZED_ERROR, Some q, None)
           | Some old \<Rightarrow>
               if items_count q = 0 then (NM_QUEUE_UNDERFLOW_ERROR, Some q, Some old)
               else (NM_QUEUE_SUCCESS,
                     Some (q\<lparr>items := (items q)[unat (head q) := NULL],
                              head := (head q + 1) mod capacity q,
                              items_count := items_count q - 1\<rparr>),
                     Some (items q ! unat (head q)))))"

definition nm_queue_is_empty :: "nm_queue option \<Rightarrow> int" where
  "nm_queue_is_empty queue =
     (case queue of
        None \<Rightarrow> - 1
      | Some q \<Rightarrow> if items_count q = 0 then 1 else 0)"

definition nm_queue_capacity :: "nm_queue option \<Rightarrow> size_t" where
  "nm_queue_capacity queue =
     (case queue of
        None \<Rightarrow> MAX_SIZE_T
      | Some q \<Rightarrow> capacity q)"

text \<open>
  \<^verbatim>\<open>action_callback\<close>: the visitor reads the element and its context and returns an
  \<^verbatim>\<open>int\<close>; what it does to the memory behind \<^verbatim>\<open>context_\<close> is the second component of its
  result. The visitor does not touch the queue it is iterating.
\<close>

type_synonym 'c action_callback = "ptr \<Rightarrow> 'c \<Rightarrow> int \<times> 'c"

text \<open>
  The \<^verbatim>\<open>while(items_left-- > 0)\<close> loop of \<^verbatim>\<open>nm_queue_for_each\<close>. The test reads
  \<open>items_left\<close> and the post-decrement happens whether the test holds or not, so the loop
  is left with \<open>items_left - 1\<close> on both exits. The result is \<open>items_left\<close> at the exit,
  the context, and (for the statements about visiting order) the elements handed to the
  visitor, in the order of the calls.
\<close>

function for_each_loop ::
  "nm_queue \<Rightarrow> 'c action_callback \<Rightarrow> size_t \<Rightarrow> size_t \<Rightarrow> size_t \<Rightarrow> 'c \<Rightarrow> ptr list
     \<Rightarrow> size_t \<times> 'c \<times> ptr list" where
  "for_each_loop q callback queue_capacity items_left item_idx context visited =
     (if items_left > 0 then
        (case callback (items q ! unat item_idx) context of
           (r, context') \<Rightarrow>
             if r = 0 then (items_left - 1, context', visited @ [items q ! unat item_idx])
             else for_each_loop q callback queue_capacity (items_left - 1)
                    ((item_idx + 1) mod queue_capacity) context'
                    (visited @ [items q ! unat item_idx]))
      else (items_left - 1, context, visited))"
  by pat_completeness auto
termination
  by (relation "measure (\<lambda>(q, callback, queue_capacity, items_left, rest). unat items_left)")
     (auto simp: unat_minus_one word_neq_0_conv [symmetric] unat_gt_0)

declare for_each_loop.simps [simp del]

definition nm_queue_for_each ::
  "nm_queue option \<Rightarrow> 'c action_callback option \<Rightarrow> 'c \<Rightarrow> size_t \<times> 'c \<times> ptr list" where
  "nm_queue_for_each queue callback context =
     (case queue of
        None \<Rightarrow> (MAX_SIZE_T, context, [])
      | Some q \<Rightarrow>
          (case callback of
             None \<Rightarrow> (MAX_SIZE_T, context, [])
           | Some cb \<Rightarrow>
               (case for_each_loop q cb (capacity q) (items_count q) (head q) context [] of
                  (items_left, context', visited) \<Rightarrow>
                    (items_count q - items_left, context', visited))))"

subsection \<open>State invariants and the buffered items\<close>

text \<open>
  The invariant of the data model: \<open>items_count \<le> capacity\<close> (the lower bound 0 is the
  type's), \<open>head < capacity\<close> and \<open>tail < capacity\<close>.
\<close>

definition nm_queue_inv :: "nm_queue \<Rightarrow> bool" where
  "nm_queue_inv q \<longleftrightarrow>
     items_count q \<le> capacity q \<and> head q < capacity q \<and> tail q < capacity q"

text \<open>
  A well-formed queue also has an array of \<open>capacity\<close> slots and its \<open>tail\<close> is
  \<open>items_count\<close> slots after \<open>head\<close>, modulo \<open>capacity\<close>. Its capacity is above 0, so
  no \<^verbatim>\<open>%=\<close> divides by 0, and every index the operations use is inside the array (in C
  both would be undefined behaviour). \<^verbatim>\<open>nm_queue_create\<close> gives a well-formed queue and
  the operations keep it so.
\<close>

definition nm_queue_wf :: "nm_queue \<Rightarrow> bool" where
  "nm_queue_wf q \<longleftrightarrow>
     nm_queue_inv q \<and> length (items q) = unat (capacity q) \<and>
     unat (tail q) = (unat (head q) + unat (items_count q)) mod unat (capacity q)"

text \<open>The buffered items, oldest first: \<open>items_count\<close> slots from \<open>head\<close>, wrapping.\<close>

definition buffered :: "nm_queue \<Rightarrow> ptr list" where
  "buffered q =
     map (\<lambda>i. items q ! ((unat (head q) + i) mod unat (capacity q)))
       [0 ..< unat (items_count q)]"

text \<open>
  The visit as the spec words it, on a list of items oldest first: the visitor is called
  on the items in order and may stop the visit by returning 0. The result says whether
  the visitor stopped the visit, and gives the context and the items visited.
\<close>

fun visit_in_order :: "'c action_callback \<Rightarrow> ptr list \<Rightarrow> 'c \<Rightarrow> bool \<times> 'c \<times> ptr list" where
  "visit_in_order callback [] ctx = (False, ctx, [])"
| "visit_in_order callback (x # xs) ctx =
     (case callback x ctx of
        (r, ctx') \<Rightarrow>
          if r = 0 then (True, ctx', [x])
          else (case visit_in_order callback xs ctx' of
                  (stopped, ctx'', visited) \<Rightarrow> (stopped, ctx'', x # visited)))"

subsection \<open>Sequences of calls\<close>

text \<open>
  A sequence of \<^verbatim>\<open>nm_queue_enqueue\<close> and \<^verbatim>\<open>nm_queue_dequeue\<close> calls on one handle. Each
  dequeue passes the address of a variable that holds \<^verbatim>\<open>NULL\<close>. The result is the handle's
  target after the last call, the status of every call, the items of the enqueue calls
  that returned \<open>NM_QUEUE_SUCCESS\<close> and the items handed out by the dequeue calls that
  returned \<open>NM_QUEUE_SUCCESS\<close>, each in call order.
\<close>

datatype queue_call = Enqueue ptr | Dequeue

fun run_calls ::
  "nm_queue option \<Rightarrow> queue_call list
     \<Rightarrow> nm_queue option \<times> nm_queue_status list \<times> ptr list \<times> ptr list" where
  "run_calls queue [] = (queue, [], [], [])"
| "run_calls queue (Enqueue x # cs) =
     (case nm_queue_enqueue queue x of
        (st, queue') \<Rightarrow>
          (case run_calls queue' cs of
             (final, sts, enq, deq) \<Rightarrow>
               (final, st # sts, (if st = NM_QUEUE_SUCCESS then x # enq else enq), deq)))"
| "run_calls queue (Dequeue # cs) =
     (case nm_queue_dequeue queue (Some NULL) of
        (st, queue', out) \<Rightarrow>
          (case run_calls queue' cs of
             (final, sts, enq, deq) \<Rightarrow>
               (final, st # sts, enq,
                (case out of
                   Some v \<Rightarrow> if st = NM_QUEUE_SUCCESS then v # deq else deq
                 | None \<Rightarrow> deq))))"

text \<open>
  Any of the five operations, and the handle's target after it. \<^verbatim>\<open>nm_queue_is_empty\<close>,
  \<^verbatim>\<open>nm_queue_capacity\<close> and \<^verbatim>\<open>nm_queue_for_each\<close> only read the queue.
\<close>

datatype 'c queue_op =
    Op_enqueue ptr
  | Op_dequeue "ptr option"
  | Op_is_empty
  | Op_capacity
  | Op_for_each "'c action_callback option" 'c

fun apply_op :: "nm_queue option \<Rightarrow> 'c queue_op \<Rightarrow> nm_queue option" where
  "apply_op queue (Op_enqueue x) = snd (nm_queue_enqueue queue x)"
| "apply_op queue (Op_dequeue item_ptr) = fst (snd (nm_queue_dequeue queue item_ptr))"
| "apply_op queue Op_is_empty = (case nm_queue_is_empty queue of r \<Rightarrow> queue)"
| "apply_op queue Op_capacity = (case nm_queue_capacity queue of r \<Rightarrow> queue)"
| "apply_op queue (Op_for_each callback context) =
     (case nm_queue_for_each queue callback context of r \<Rightarrow> queue)"

definition run_ops :: "nm_queue option \<Rightarrow> 'c queue_op list \<Rightarrow> nm_queue option" where
  "run_ops queue ops = foldl apply_op queue ops"

section \<open>The synchronisation utilities\<close>

text \<open>
  Modelled from the spec: the counting semaphore \<^verbatim>\<open>sem_t\<close> is the platform's
  (\<^verbatim>\<open><semaphore.h>\<close>, or the Win32 semaphore object behind the wrappers of the source); its
  behaviour is taken from the spec's CountingSemaphore: a count between 0 and a fixed
  maximum, \<^verbatim>\<open>sem_wait\<close> blocks while the count is 0 and decrements it otherwise,
  \<^verbatim>\<open>sem_post\<close> increments it. \<^verbatim>\<open>SEM_VALUE_MAX\<close> is the header's 2147483647; a post at
  the maximum fails and leaves the count as it is (the callers in the source ignore the
  return value). \<open>sem_wait\<close> is \<open>None\<close> where the caller blocks.
\<close>

type_synonym sem_t = nat

definition SEM_VALUE_MAX :: nat where
  "SEM_VALUE_MAX = 2147483647"

definition sem_wait :: "sem_t \<Rightarrow> sem_t option" where
  "sem_wait s = (if s = 0 then None else Some (s - 1))"

definition sem_post :: "sem_t \<Rightarrow> sem_t" where
  "sem_post s = (if s < SEM_VALUE_MAX then s + 1 else s)"

record nm_mutex_t =
  lock :: sem_t

definition nm_mutex_lock :: "nm_mutex_t \<Rightarrow> nm_mutex_t option" where
  "nm_mutex_lock m = map_option (\<lambda>l. m\<lparr>lock := l\<rparr>) (sem_wait (lock m))"

definition nm_mutex_unlock :: "nm_mutex_t \<Rightarrow> nm_mutex_t" where
  "nm_mutex_unlock m = m\<lparr>lock := sem_post (lock m)\<rparr>"

text \<open>\<^verbatim>\<open>unsigned int\<close> is 32 bits wide.\<close>

record nm_barrier_t =
  max_threads_count :: "32 word"
  waiting_threads_count :: "32 word"
  mtx :: nm_mutex_t
  turnstile :: sem_t

text \<open>
  \<^verbatim>\<open>nm_barrier_init\<close> where both \<^verbatim>\<open>sem_init\<close> calls succeed: the mutex is a semaphore at 1,
  the turnstile a semaphore at 0.
\<close>

definition nm_barrier_init :: "32 word \<Rightarrow> nm_barrier_t" where
  "nm_barrier_init threads_count =
     \<lparr>max_threads_count = threads_count, waiting_threads_count = 0,
      mtx = \<lparr>lock = 1\<rparr>, turnstile = 0\<rparr>"

text \<open>The loop \<^verbatim>\<open>for(i = 0; i < max_threads; ++i) sem_post(&barrier_->turnstile_)\<close>.\<close>

function turnstile_posts :: "32 word \<Rightarrow> 32 word \<Rightarrow> sem_t \<Rightarrow> sem_t" where
  "turnstile_posts i max_threads s =
     (if i < max_threads then turnstile_posts (i + 1) max_threads (sem_post s) else s)"
  by pat_completeness auto
termination
proof (relation "measure (\<lambda>(i, max_threads, s). unat max_threads - unat i)")
  show "wf (measure (\<lambda>(i, max_threads, s). unat max_threads - unat i))"
    by simp
next
  fix i max_threads :: "32 word" and s :: sem_t
  assume lt: "i < max_threads"
  then have "unat i < unat max_threads"
    by (simp add: word_less_nat_alt)
  moreover have "unat max_threads < 2 ^ 32"
    using unsigned_less [of max_threads] by simp
  ultimately have "unat i + unat (1 :: 32 word) < 2 ^ LENGTH(32)"
    by simp
  then have "unat (i + 1) = unat i + unat (1 :: 32 word)"
    by (rule unat_add_lem [THEN iffD1])
  with \<open>unat i < unat max_threads\<close>
  show "((i + 1, max_threads, sem_post s), (i, max_threads, s))
          \<in> measure (\<lambda>(i, max_threads, s). unat max_threads - unat i)"
    by simp
qed

declare turnstile_posts.simps [simp del]

text \<open>
  \<^verbatim>\<open>nm_barrier_wait\<close> in its two parts. \<open>nm_barrier_arrive\<close> is the section under the
  barrier's mutex, from \<^verbatim>\<open>nm_mutex_lock\<close> to \<^verbatim>\<open>nm_mutex_unlock\<close>: the pre-increment of the
  arrival counter, its comparison with the party size, and the posts. It is \<open>None\<close> where
  the caller blocks on the mutex. \<open>nm_barrier_pass\<close> is the final
  \<^verbatim>\<open>sem_wait(&barrier_->turnstile_)\<close>, \<open>None\<close> where the caller blocks on the turnstile.
\<close>

definition nm_barrier_arrive :: "nm_barrier_t \<Rightarrow> nm_barrier_t option" where
  "nm_barrier_arrive barrier =
     (case nm_mutex_lock (mtx barrier) of
        None \<Rightarrow> None
      | Some m \<Rightarrow>
          (let b1 = barrier\<lparr>mtx := m,
                             waiting_threads_count := waiting_threads_count barrier + 1\<rparr>;
               b2 = (if waiting_threads_count b1 = max_threads_count b1
                     then b1\<lparr>turnstile :=
                               turnstile_posts 0 (max_threads_count b1) (turnstile b1)\<rparr>
                     else b1)
           in Some (b2\<lparr>mtx := nm_mutex_unlock (mtx b2)\<rparr>)))"

definition nm_barrier_pass :: "nm_barrier_t \<Rightarrow> nm_barrier_t option" where
  "nm_barrier_pass barrier =
     map_option (\<lambda>t. barrier\<lparr>turnstile := t\<rparr>) (sem_wait (turnstile barrier))"

text \<open>
  One call of \<^verbatim>\<open>nm_barrier_wait\<close> that no other thread interleaves with: it returns, or
  the caller stays blocked in it, and the barrier is left as given.
\<close>

datatype wait_result = Returned nm_barrier_t | Blocked nm_barrier_t

definition nm_barrier_wait :: "nm_barrier_t \<Rightarrow> wait_result" where
  "nm_barrier_wait barrier =
     (case nm_barrier_arrive barrier of
        None \<Rightarrow> Blocked barrier
      | Some b \<Rightarrow>
          (case nm_barrier_pass b of
             None \<Rightarrow> Blocked b
           | Some b' \<Rightarrow> Returned b'))"

text \<open>
  One schedule among many: \<open>k\<close> calls of \<^verbatim>\<open>nm_barrier_wait\<close> that do not overlap, each by a
  thread of its own (a blocked caller makes no further call) and each run up to its return
  or its blocking before the next one starts: for every call whether it returned, and the
  barrier after the last one. The schedules in which calls overlap are those of
  \<open>barrier_run\<close> and \<open>threads_run\<close> below.
\<close>

fun nm_barrier_wait_calls :: "nat \<Rightarrow> nm_barrier_t \<Rightarrow> bool list \<times> nm_barrier_t" where
  "nm_barrier_wait_calls 0 barrier = ([], barrier)"
| "nm_barrier_wait_calls (Suc k) barrier =
     (case nm_barrier_wait barrier of
        Returned b \<Rightarrow>
          (case nm_barrier_wait_calls k b of (rs, b') \<Rightarrow> (True # rs, b'))
      | Blocked b \<Rightarrow>
          (case nm_barrier_wait_calls k b of (rs, b') \<Rightarrow> (False # rs, b')))"

text \<open>
  Several threads at one barrier. The mutex makes the arrivals atomic with respect to
  each other and a semaphore operation is atomic, so a schedule is a list of events:
  \<open>Arrive\<close>, some thread runs the section under the mutex; \<open>Pass\<close>, some thread gets
  through its wait on the turnstile. A pass that falls between two posts of one arrival
  leaves the same counts as the same pass after them, so the posts of an arrival are one
  event with it. \<open>barrier_run\<close> is \<open>None\<close> for a schedule that cannot happen, because
  one of its events is a thread that is blocked.
\<close>

datatype barrier_event = Arrive | Pass

fun barrier_step :: "nm_barrier_t \<Rightarrow> barrier_event \<Rightarrow> nm_barrier_t option" where
  "barrier_step barrier Arrive = nm_barrier_arrive barrier"
| "barrier_step barrier Pass = nm_barrier_pass barrier"

fun barrier_run :: "nm_barrier_t \<Rightarrow> barrier_event list \<Rightarrow> nm_barrier_t option" where
  "barrier_run barrier [] = Some barrier"
| "barrier_run barrier (e # es) =
     (case barrier_step barrier e of
        None \<Rightarrow> None
      | Some b \<Rightarrow> barrier_run b es)"

text \<open>
  The same schedules with the threads named. A thread is inside \<^verbatim>\<open>nm_barrier_wait\<close> from
  its arrival until it gets through the turnstile; \<open>parked\<close> lists the threads that have
  left the mutex and have not yet come back from \<^verbatim>\<open>sem_wait\<close>, \<open>returned\<close> the threads
  whose calls have returned, one entry for each call, in the order of the returns.
  \<open>Arrives t\<close> is thread \<open>t\<close> running the section under the mutex, which it cannot do
  while it is parked; \<open>Passes t\<close> is the parked thread \<open>t\<close> getting through the turnstile,
  whichever arrival posted for it. A thread that has returned may call again.
\<close>

datatype thread_event = Arrives nat | Passes nat

record barrier_threads =
  shared :: nm_barrier_t
  parked :: "nat list"
  returned :: "nat list"

definition threads_init :: "32 word \<Rightarrow> barrier_threads" where
  "threads_init threads_count =
     \<lparr>shared = nm_barrier_init threads_count, parked = [], returned = []\<rparr>"

fun threads_step :: "barrier_threads \<Rightarrow> thread_event \<Rightarrow> barrier_threads option" where
  "threads_step s (Arrives t) =
     (if t \<in> set (parked s) then None
      else (case nm_barrier_arrive (shared s) of
              None \<Rightarrow> None
            | Some b \<Rightarrow> Some (s\<lparr>shared := b, parked := parked s @ [t]\<rparr>)))"
| "threads_step s (Passes t) =
     (if t \<in> set (parked s) then
        (case nm_barrier_pass (shared s) of
           None \<Rightarrow> None
         | Some b \<Rightarrow>
             Some (s\<lparr>shared := b, parked := remove1 t (parked s),
                      returned := returned s @ [t]\<rparr>))
      else None)"

fun threads_run :: "barrier_threads \<Rightarrow> thread_event list \<Rightarrow> barrier_threads option" where
  "threads_run s [] = Some s"
| "threads_run s (e # es) =
     (case threads_step s e of
        None \<Rightarrow> None
      | Some s' \<Rightarrow> threads_run s' es)"

text \<open>
  The events of a schedule without the names, and the number of arrivals in it.
\<close>

fun anonymous :: "thread_event \<Rightarrow> barrier_event" where
  "anonymous (Arrives t) = Arrive"
| "anonymous (Passes t) = Pass"

definition arrivals :: "thread_event list \<Rightarrow> nat" where
  "arrivals evs = count_list (map anonymous evs) Arrive"

section \<open>Properties of the underlying queue\<close>

subsection \<open>Arithmetic of the indices\<close>

lemma unat_inc_lt:
  fixes x c :: "'a::len word"
  assumes "x < c"
  shows "unat (x + 1) = unat x + 1"
proof -
  have "unat x < unat c" using assms by (simp add: word_less_nat_alt)
  moreover have "unat c < 2 ^ LENGTH('a)" by (rule unsigned_less)
  ultimately have "unat x + 1 < 2 ^ LENGTH('a)" by linarith
  then have "unat x + unat (1::'a word) < 2 ^ LENGTH('a)" by simp
  then have "unat (x + 1) = unat x + unat (1::'a word)" by (rule unat_add_lem [THEN iffD1])
  then show ?thesis by simp
qed

lemma unat_inc_mod:
  fixes x c :: "'a::len word"
  assumes "x < c"
  shows "unat ((x + 1) mod c) = (unat x + 1) mod unat c"
  by (simp add: unat_mod unat_inc_lt [OF assms])

lemma unat_dec:
  fixes x :: "'a::len word"
  assumes "x \<noteq> 0"
  shows "unat (x - 1) = unat x - 1"
  using assms by (simp add: unat_minus_one)

lemma mod_add_distinct:
  fixes h i j c :: nat
  assumes "i < j" "j < c"
  shows "(h + i) mod c \<noteq> (h + j) mod c"
proof
  assume "(h + i) mod c = (h + j) mod c"
  then have "(h + j) mod c = (h + i) mod c" by simp
  then have "c dvd (h + j) - (h + i)"
    using assms by (simp add: mod_eq_dvd_iff_nat)
  then have "c dvd j - i" by simp
  moreover have "0 < j - i" "j - i < c" using assms by simp_all
  ultimately show False by (simp add: nat_dvd_not_less)
qed

lemma nm_queue_wf_bounds:
  assumes "nm_queue_wf q"
  shows "unat (head q) < length (items q)" "unat (tail q) < length (items q)"
    "unat (items_count q) \<le> length (items q)"
  using assms by (auto simp: nm_queue_wf_def nm_queue_inv_def word_less_nat_alt word_le_nat_alt)

lemma enqueue_success_wf:
  assumes wf: "nm_queue_wf q" and r: "nm_queue_enqueue (Some q) x = (NM_QUEUE_SUCCESS, queue')"
  shows "\<exists>q'. queue' = Some q' \<and> nm_queue_wf q' \<and> buffered q' = buffered q @ [x]"
proof -
  let ?c = "unat (capacity q)" and ?h = "unat (head q)" and ?n = "unat (items_count q)"
  from r have ne: "capacity q \<noteq> items_count q"
    by (auto simp: nm_queue_enqueue_def split: if_splits)
  define q' where "q' = q\<lparr>items := (items q)[unat (tail q) := x],
      tail := (tail q + 1) mod capacity q, items_count := items_count q + 1\<rparr>"
  from r have q': "queue' = Some q'"
    by (auto simp: nm_queue_enqueue_def q'_def split: if_splits)
  from wf have le: "items_count q \<le> capacity q" and hd: "head q < capacity q"
    and tl: "tail q < capacity q" and len: "length (items q) = ?c"
    and tleq: "unat (tail q) = (?h + ?n) mod ?c"
    by (simp_all add: nm_queue_wf_def nm_queue_inv_def)
  from le ne have lt: "items_count q < capacity q" by simp
  then have n_lt: "?n < ?c" by (simp add: word_less_nat_alt)
  have cnt: "unat (items_count q + 1) = ?n + 1" by (rule unat_inc_lt [OF lt])
  have tl': "unat ((tail q + 1) mod capacity q) = (unat (tail q) + 1) mod ?c"
    by (rule unat_inc_mod [OF tl])
  have "items_count q + 1 \<le> capacity q" using lt by (rule inc_le)
  moreover have "(tail q + 1) mod capacity q < capacity q"
    using n_lt by (simp add: word_less_nat_alt tl')
  ultimately have inv': "nm_queue_inv q'" using hd by (simp add: nm_queue_inv_def q'_def)
  have "(unat (tail q) + 1) mod ?c = (?h + (?n + 1)) mod ?c"
    by (simp add: tleq mod_Suc_eq)
  then have wf': "nm_queue_wf q'"
    using inv' len by (simp add: nm_queue_wf_def q'_def cnt tl')
  have old: "(items q)[unat (tail q) := x] ! ((?h + i) mod ?c) = items q ! ((?h + i) mod ?c)"
    if "i < ?n" for i
  proof -
    have "(?h + i) mod ?c \<noteq> (?h + ?n) mod ?c" using that n_lt by (rule mod_add_distinct)
    then show ?thesis by (simp add: tleq)
  qed
  have new: "(items q)[unat (tail q) := x] ! ((?h + ?n) mod ?c) = x"
    using n_lt len by (simp add: tleq)
  have "buffered q' = buffered q @ [x]"
    using old new by (simp add: buffered_def q'_def cnt)
  with q' wf' show ?thesis by simp
qed

lemma dequeue_success_wf:
  assumes wf: "nm_queue_wf q"
    and r: "nm_queue_dequeue (Some q) item_ptr = (NM_QUEUE_SUCCESS, queue', out)"
  shows "\<exists>q' v. queue' = Some q' \<and> out = Some v \<and> nm_queue_wf q' \<and> buffered q = v # buffered q'"
proof -
  let ?c = "unat (capacity q)" and ?h = "unat (head q)" and ?n = "unat (items_count q)"
  from r have ne: "items_count q \<noteq> 0"
    by (auto simp: nm_queue_dequeue_def split: if_splits option.splits)
  define q' where "q' = q\<lparr>items := (items q)[unat (head q) := NULL],
      head := (head q + 1) mod capacity q, items_count := items_count q - 1\<rparr>"
  from r have q': "queue' = Some q'" and out: "out = Some (items q ! ?h)"
    by (auto simp: nm_queue_dequeue_def q'_def split: if_splits option.splits)
  from wf have le: "items_count q \<le> capacity q" and hd: "head q < capacity q"
    and tl: "tail q < capacity q" and len: "length (items q) = ?c"
    and tleq: "unat (tail q) = (?h + ?n) mod ?c"
    by (simp_all add: nm_queue_wf_def nm_queue_inv_def)
  from hd have h_lt: "?h < ?c" by (simp add: word_less_nat_alt)
  from le have n_le: "?n \<le> ?c" by (simp add: word_le_nat_alt)
  from ne have n_pos: "0 < ?n" by (simp add: unat_gt_0)
  have cnt: "unat (items_count q - 1) = ?n - 1" by (rule unat_dec [OF ne])
  have hd': "unat ((head q + 1) mod capacity q) = (?h + 1) mod ?c"
    by (rule unat_inc_mod [OF hd])
  have "items_count q - 1 \<le> capacity q"
    using n_le by (simp add: word_le_nat_alt cnt)
  moreover have "(head q + 1) mod capacity q < capacity q"
    using h_lt by (simp add: word_less_nat_alt hd')
  ultimately have inv': "nm_queue_inv q'" using tl by (simp add: nm_queue_inv_def q'_def)
  have "(?h + 1 + (?n - 1)) mod ?c = (?h + ?n) mod ?c" using n_pos by simp
  then have "((?h + 1) mod ?c + (?n - 1)) mod ?c = (?h + ?n) mod ?c"
    by (simp add: mod_add_left_eq)
  then have wf': "nm_queue_wf q'"
    using inv' len by (simp add: nm_queue_wf_def q'_def cnt hd' tleq)
  have shift: "(items q)[?h := NULL] ! (((?h + 1) mod ?c + i) mod ?c) = items q ! ((?h + Suc i) mod ?c)"
    if "i < ?n - 1" for i
  proof -
    have eq: "((?h + 1) mod ?c + i) mod ?c = (?h + Suc i) mod ?c"
      by (simp add: mod_add_left_eq)
    have "0 < Suc i" "Suc i < ?c" using that n_le by simp_all
    then have "(?h + 0) mod ?c \<noteq> (?h + Suc i) mod ?c" by (rule mod_add_distinct)
    then have "?h \<noteq> (?h + Suc i) mod ?c" using h_lt by simp
    then show ?thesis unfolding eq by simp
  qed
  have "[0 ..< ?n] = 0 # map Suc [0 ..< ?n - 1]"
    using n_pos by (metis Suc_pred' map_Suc_upt upt_conv_Cons)
  then have "buffered q = items q ! ?h # map (\<lambda>i. items q ! ((?h + Suc i) mod ?c)) [0 ..< ?n - 1]"
    using h_lt by (simp add: buffered_def comp_def)
  also have "map (\<lambda>i. items q ! ((?h + Suc i) mod ?c)) [0 ..< ?n - 1] = buffered q'"
    using shift by (simp add: buffered_def q'_def cnt hd')
  finally show ?thesis using q' out wf' by simp
qed


lemma nm_queue_create_wf:
  assumes "nm_queue_create malloc_ok calloc_ok init_size = Some q"
  shows "nm_queue_wf q" and "buffered q = []" and "capacity q = init_size"
proof -
  from assms have ne: "init_size \<noteq> 0"
    and q: "q = \<lparr>items = replicate (unat init_size) NULL,
                  capacity = init_size, head = 0, tail = 0, items_count = 0\<rparr>"
    by (auto simp: nm_queue_create_def split: if_splits)
  from ne have "0 < init_size" by (simp add: word_neq_0_conv)
  then show "nm_queue_wf q" by (simp add: q nm_queue_wf_def nm_queue_inv_def)
  show "buffered q = []" by (simp add: q buffered_def)
  show "capacity q = init_size" by (simp add: q)
qed

lemma enqueue_failure_unchanged:
  "fst (nm_queue_enqueue queue item) \<noteq> NM_QUEUE_SUCCESS \<Longrightarrow>
     snd (nm_queue_enqueue queue item) = queue"
  by (simp add: nm_queue_enqueue_def split: option.splits if_splits)

lemma dequeue_failure_unchanged:
  "fst (nm_queue_dequeue queue item_ptr) \<noteq> NM_QUEUE_SUCCESS \<Longrightarrow>
     snd (nm_queue_dequeue queue item_ptr) = (queue, item_ptr)"
  by (simp add: nm_queue_dequeue_def split: option.splits if_splits)

lemma run_calls_wf:
  assumes "nm_queue_wf q" and "run_calls (Some q) calls = (final, sts, enq, deq)"
  shows "\<exists>q'. final = Some q' \<and> nm_queue_wf q' \<and> buffered q @ enq = deq @ buffered q'"
  using assms
proof (induction calls arbitrary: q final sts enq deq)
  case Nil
  then show ?case by auto
next
  case (Cons c cs)
  show ?case
  proof (cases c)
    case (Enqueue x)
    obtain st queue' where e: "nm_queue_enqueue (Some q) x = (st, queue')"
      by (cases "nm_queue_enqueue (Some q) x")
    obtain final' sts' enq' deq' where r: "run_calls queue' cs = (final', sts', enq', deq')"
      by (cases "run_calls queue' cs")
    from Cons.prems(2) Enqueue e r
    have fin: "final = final'" and deq: "deq = deq'"
      and enq: "enq = (if st = NM_QUEUE_SUCCESS then x # enq' else enq')"
      by simp_all
    show ?thesis
    proof (cases "st = NM_QUEUE_SUCCESS")
      case True
      with e Cons.prems(1) obtain q1 where q1: "queue' = Some q1" "nm_queue_wf q1"
        "buffered q1 = buffered q @ [x]"
        using enqueue_success_wf by blast
      from Cons.IH [OF q1(2) r [unfolded q1(1)]] obtain q' where
        "final' = Some q'" "nm_queue_wf q'" "buffered q1 @ enq' = deq' @ buffered q'"
        by blast
      then show ?thesis using True fin deq enq q1(3) by simp
    next
      case False
      with e have "queue' = Some q" using enqueue_failure_unchanged [of "Some q" x] by simp
      from Cons.IH [OF Cons.prems(1) r [unfolded this]] show ?thesis
        using False fin deq enq by simp
    qed
  next
    case Dequeue
    obtain st queue' out where d: "nm_queue_dequeue (Some q) (Some NULL) = (st, queue', out)"
      by (cases "nm_queue_dequeue (Some q) (Some NULL)")
    obtain final' sts' enq' deq' where r: "run_calls queue' cs = (final', sts', enq', deq')"
      by (cases "run_calls queue' cs")
    from Cons.prems(2) Dequeue d r
    have fin: "final = final'" and enq: "enq = enq'"
      and deq: "deq = (case out of Some v \<Rightarrow> if st = NM_QUEUE_SUCCESS then v # deq' else deq'
                        | None \<Rightarrow> deq')"
      by simp_all
    show ?thesis
    proof (cases "st = NM_QUEUE_SUCCESS")
      case True
      with d Cons.prems(1) obtain q1 v where q1: "queue' = Some q1" "out = Some v"
        "nm_queue_wf q1" "buffered q = v # buffered q1"
        using dequeue_success_wf by blast
      from Cons.IH [OF q1(3) r [unfolded q1(1)]] obtain q' where
        "final' = Some q'" "nm_queue_wf q'" "buffered q1 @ enq' = deq' @ buffered q'"
        by blast
      then show ?thesis using True fin deq enq q1(2,4) by simp
    next
      case False
      with d have "queue' = Some q" "out = Some NULL"
        using dequeue_failure_unchanged [of "Some q" "Some NULL"] by simp_all
      from Cons.IH [OF Cons.prems(1) r [unfolded this(1)]] show ?thesis
        using False fin deq enq \<open>out = Some NULL\<close> by simp
    qed
  qed
qed

subsection \<open>FIFO order\<close>

text \<open>
  Claim C1. For every finite sequence of \<^verbatim>\<open>nm_queue_enqueue\<close> and \<^verbatim>\<open>nm_queue_dequeue\<close> calls
  on a queue created by \<^verbatim>\<open>nm_queue_create\<close> (so with a capacity above 0) in which every
  call returns \<open>NM_QUEUE_SUCCESS\<close>, the items handed out by the dequeues are, in order, the
  first items enqueued: the k-th dequeue returns the k-th enqueued item, and the items
  enqueued are exactly those handed out followed by those still buffered, so none is lost
  or duplicated.
\<close>

theorem nm_queue_fifo:
  assumes "nm_queue_create malloc_ok calloc_ok n = Some q"
    and "run_calls (Some q) calls = (final, sts, enq, deq)"
    and "\<forall>st \<in> set sts. st = NM_QUEUE_SUCCESS"
  shows "0 < n \<and> deq = take (length deq) enq \<and>
         (\<exists>q'. final = Some q' \<and> enq = deq @ buffered q')"
proof -
  from assms(1) have "nm_queue_wf q" "buffered q = []" "n \<noteq> 0"
    by (auto simp: nm_queue_create_wf nm_queue_create_def split: if_splits)
  with run_calls_wf [OF this(1) assms(2)] obtain q' where
    q': "final = Some q'" "enq = deq @ buffered q'"
    by auto
  from q'(2) have "deq = take (length deq) enq" by simp
  with q' \<open>n \<noteq> 0\<close> show ?thesis by (simp add: word_neq_0_conv)
qed

theorem nm_queue_fifo_witness:
  "nm_queue_create True True 2 =
     Some \<lparr>items = [NULL, NULL], capacity = 2, head = 0, tail = 0, items_count = 0\<rparr> \<and>
   run_calls (Some \<lparr>items = [NULL, NULL], capacity = 2, head = 0, tail = 0, items_count = 0\<rparr>)
     [Enqueue 5, Enqueue 6, Dequeue, Enqueue 7, Dequeue, Dequeue] =
     (Some \<lparr>items = [NULL, NULL], capacity = 2, head = 1, tail = 1, items_count = 0\<rparr>,
      [NM_QUEUE_SUCCESS, NM_QUEUE_SUCCESS, NM_QUEUE_SUCCESS, NM_QUEUE_SUCCESS,
       NM_QUEUE_SUCCESS, NM_QUEUE_SUCCESS], [5, 6, 7], [5, 6, 7]) \<and>
   [5, 6, 7] = take (length [5, 6, 7 :: ptr]) [5, 6, 7 :: ptr]"
proof -
  let ?q = "\<lparr>items = [NULL, NULL], capacity = 2, head = 0, tail = 0, items_count = 0\<rparr>"
  have h1: "nm_queue_create True True 2 = Some ?q"
  proof -
    have "replicate 2 NULL = [NULL, NULL :: ptr]"
      by (simp add: numeral_2_eq_2)
    then show ?thesis
      by (simp add: nm_queue_create_def)
  qed
  have h2: "run_calls (Some ?q) [Enqueue 5, Enqueue 6, Dequeue, Enqueue 7, Dequeue, Dequeue] =
     (Some \<lparr>items = [NULL, NULL], capacity = 2, head = 1, tail = 1, items_count = 0\<rparr>,
      [NM_QUEUE_SUCCESS, NM_QUEUE_SUCCESS, NM_QUEUE_SUCCESS, NM_QUEUE_SUCCESS,
       NM_QUEUE_SUCCESS, NM_QUEUE_SUCCESS], [5, 6, 7], [5, 6, 7])"
    by (simp add: nm_queue_enqueue_def nm_queue_dequeue_def)
  have h3: "\<forall>st \<in> set ([NM_QUEUE_SUCCESS, NM_QUEUE_SUCCESS, NM_QUEUE_SUCCESS, NM_QUEUE_SUCCESS,
       NM_QUEUE_SUCCESS, NM_QUEUE_SUCCESS]). st = NM_QUEUE_SUCCESS"
    by simp
  from nm_queue_fifo [OF h1 h2 h3] h1 h2 h3 show ?thesis
    by simp
qed

subsection \<open>Enqueue\<close>

text \<open>
  With a full queue and a \<^verbatim>\<open>NULL\<close> item the status is \<open>NM_QUEUE_UNINITIALIZED_ERROR\<close>:
  the \<^verbatim>\<open>NULL\<close> test comes first, so the overflow status is not returned every time the
  count equals the capacity.
\<close>

theorem nm_queue_enqueue_overflow_counterexample:
  "\<not> (fst (nm_queue_enqueue
              (Some \<lparr>items = [7], capacity = 1, head = 0, tail = 0, items_count = 1\<rparr>) NULL) =
          NM_QUEUE_OVERFLOW_ERROR \<longleftrightarrow>
        items_count \<lparr>items = [7], capacity = 1, head = 0, tail = 0, items_count = 1\<rparr> =
          capacity \<lparr>items = [7], capacity = 1, head = 0, tail = 0, items_count = 1\<rparr>)"
  by (simp add: nm_queue_enqueue_def)

text \<open>
  Claim C5, amended. For every valid handle: a \<^verbatim>\<open>NULL\<close> item gives
  \<open>NM_QUEUE_UNINITIALIZED_ERROR\<close> and leaves the queue as it is, whatever the count; for an
  item that is not \<^verbatim>\<open>NULL\<close> the status is \<open>NM_QUEUE_OVERFLOW_ERROR\<close> exactly when the item
  count equals the capacity; otherwise the item is written at \<open>tail\<close> (inside the array),
  \<open>tail\<close> advances by one modulo the capacity, the count grows by one, and the status is
  \<open>NM_QUEUE_SUCCESS\<close>.
\<close>

theorem nm_queue_enqueue_cases:
  assumes "nm_queue_wf q"
  shows "(item = NULL \<longrightarrow>
            nm_queue_enqueue (Some q) item = (NM_QUEUE_UNINITIALIZED_ERROR, Some q)) \<and>
         (item \<noteq> NULL \<longrightarrow>
            (fst (nm_queue_enqueue (Some q) item) = NM_QUEUE_OVERFLOW_ERROR \<longleftrightarrow>
             items_count q = capacity q)) \<and>
         (item \<noteq> NULL \<and> items_count q \<noteq> capacity q \<longrightarrow>
            (\<exists>q'. nm_queue_enqueue (Some q) item = (NM_QUEUE_SUCCESS, Some q') \<and>
                  unat (tail q) < length (items q) \<and>
                  items q' = (items q)[unat (tail q) := item] \<and>
                  unat (tail q') = (unat (tail q) + 1) mod unat (capacity q) \<and>
                  unat (items_count q') = unat (items_count q) + 1 \<and>
                  head q' = head q \<and> capacity q' = capacity q))"
proof -
  from assms have le: "items_count q \<le> capacity q" and tl: "tail q < capacity q"
    by (simp_all add: nm_queue_wf_def nm_queue_inv_def)
  have "unat (items_count q + 1) = unat (items_count q) + 1" if "items_count q \<noteq> capacity q"
  proof -
    from le that have "items_count q < capacity q" by simp
    then show ?thesis by (rule unat_inc_lt)
  qed
  moreover have "unat ((tail q + 1) mod capacity q) = (unat (tail q) + 1) mod unat (capacity q)"
    by (rule unat_inc_mod [OF tl])
  moreover have "unat (tail q) < length (items q)"
    using assms by (rule nm_queue_wf_bounds)
  ultimately show ?thesis
    by (auto simp: nm_queue_enqueue_def)
qed

theorem nm_queue_enqueue_cases_witness:
  "nm_queue_wf \<lparr>items = [7, NULL], capacity = 2, head = 0, tail = 1, items_count = 1\<rparr> \<and>
   nm_queue_wf \<lparr>items = [7], capacity = 1, head = 0, tail = 0, items_count = 1\<rparr> \<and>
   nm_queue_enqueue
     (Some \<lparr>items = [7, NULL], capacity = 2, head = 0, tail = 1, items_count = 1\<rparr>) NULL =
     (NM_QUEUE_UNINITIALIZED_ERROR,
      Some \<lparr>items = [7, NULL], capacity = 2, head = 0, tail = 1, items_count = 1\<rparr>) \<and>
   fst (nm_queue_enqueue
          (Some \<lparr>items = [7], capacity = 1, head = 0, tail = 0, items_count = 1\<rparr>) 9) =
     NM_QUEUE_OVERFLOW_ERROR \<and>
   nm_queue_enqueue
     (Some \<lparr>items = [7, NULL], capacity = 2, head = 0, tail = 1, items_count = 1\<rparr>) 9 =
     (NM_QUEUE_SUCCESS,
      Some \<lparr>items = [7, 9], capacity = 2, head = 0, tail = 0, items_count = 2\<rparr>)"
proof -
  let ?q = "\<lparr>items = [7, NULL], capacity = 2, head = 0, tail = 1, items_count = 1\<rparr>"
  let ?full = "\<lparr>items = [7], capacity = 1, head = 0, tail = 0, items_count = 1\<rparr>"
  have wf: "nm_queue_wf ?q" and wf_full: "nm_queue_wf ?full"
    by (simp_all add: nm_queue_wf_def nm_queue_inv_def)
  have full: "items_count ?full = capacity ?full" and room: "items_count ?q \<noteq> capacity ?q"
    by simp_all
  from nm_queue_enqueue_cases [OF wf, of NULL] nm_queue_enqueue_cases [OF wf_full, of 9]
    nm_queue_enqueue_cases [OF wf, of 9] wf wf_full full room
  show ?thesis
    by (simp add: nm_queue_enqueue_def)
qed

subsection \<open>Dequeue\<close>

text \<open>
  Claim C6. For every non-empty queue, \<^verbatim>\<open>nm_queue_dequeue\<close> succeeds, hands out the item
  stored in the slot at \<open>head\<close>, which is the oldest buffered item, and leaves \<^verbatim>\<open>NULL\<close> in
  that slot: the array after the call is the array before with that one slot cleared.
\<close>

theorem nm_queue_dequeue_head_slot:
  assumes "nm_queue_wf q" and "items_count q \<noteq> 0"
  shows "\<exists>q'. nm_queue_dequeue (Some q) (Some old) =
                 (NM_QUEUE_SUCCESS, Some q', Some (items q ! unat (head q))) \<and>
              unat (head q) < length (items q) \<and>
              items q ! unat (head q) = hd (buffered q) \<and>
              items q' = (items q)[unat (head q) := NULL] \<and>
              items q' ! unat (head q) = NULL"
proof -
  from assms(1) have h: "unat (head q) < length (items q)" by (rule nm_queue_wf_bounds)
  from assms have "0 < unat (items_count q)" by (simp add: unat_gt_0)
  then have "[0 ..< unat (items_count q)] = 0 # [Suc 0 ..< unat (items_count q)]"
    by (simp add: upt_conv_Cons)
  moreover from assms(1) have "unat (head q) < unat (capacity q)"
    by (simp add: nm_queue_wf_def nm_queue_inv_def word_less_nat_alt)
  ultimately have "hd (buffered q) = items q ! unat (head q)"
    by (simp add: buffered_def)
  with h assms(2) show ?thesis
    by (simp add: nm_queue_dequeue_def)
qed

theorem nm_queue_dequeue_head_slot_witness:
  "nm_queue_wf \<lparr>items = [NULL, 8, 9], capacity = 3, head = 1, tail = 0, items_count = 2\<rparr> \<and>
   nm_queue_dequeue
     (Some \<lparr>items = [NULL, 8, 9], capacity = 3, head = 1, tail = 0, items_count = 2\<rparr>)
     (Some NULL) =
     (NM_QUEUE_SUCCESS,
      Some \<lparr>items = [NULL, NULL, 9], capacity = 3, head = 2, tail = 0, items_count = 1\<rparr>,
      Some 8)"
proof -
  let ?q = "\<lparr>items = [NULL, 8, 9], capacity = 3, head = 1, tail = 0, items_count = 2\<rparr>"
  have wf: "nm_queue_wf ?q"
    by (simp add: nm_queue_wf_def nm_queue_inv_def)
  have ne: "items_count ?q \<noteq> 0"
    by simp
  from nm_queue_dequeue_head_slot [OF wf ne, of NULL] wf show ?thesis
    by (simp add: nm_queue_dequeue_def)
qed

subsection \<open>The state invariant\<close>

lemma apply_op_inv:
  assumes "nm_queue_inv q"
  shows "\<exists>q'. apply_op (Some q) op = Some q' \<and> nm_queue_inv q'"
proof (cases op)
  case (Op_enqueue x)
  from assms have le: "items_count q \<le> capacity q" and hd: "head q < capacity q"
    and tl: "tail q < capacity q"
    by (simp_all add: nm_queue_inv_def)
  have "items_count q + 1 \<le> capacity q" if "capacity q \<noteq> items_count q"
  proof -
    from le that have "items_count q < capacity q" by simp
    then show ?thesis by (rule inc_le)
  qed
  moreover have "(tail q + 1) mod capacity q < capacity q"
    using tl by (simp add: word_less_nat_alt unat_inc_mod)
  ultimately show ?thesis
    using Op_enqueue assms hd by (auto simp: nm_queue_enqueue_def nm_queue_inv_def)
next
  case (Op_dequeue item_ptr)
  from assms have le: "items_count q \<le> capacity q" and hd: "head q < capacity q"
    and tl: "tail q < capacity q"
    by (simp_all add: nm_queue_inv_def)
  have "items_count q - 1 \<le> capacity q" if "items_count q \<noteq> 0"
    using le that by (simp add: word_le_nat_alt unat_dec)
  moreover have "(head q + 1) mod capacity q < capacity q"
    using hd by (simp add: word_less_nat_alt unat_inc_mod)
  ultimately show ?thesis
    using Op_dequeue assms tl
    by (auto simp: nm_queue_dequeue_def nm_queue_inv_def split: option.splits)
qed (use assms in simp_all)

lemma run_ops_inv:
  "nm_queue_inv q \<Longrightarrow> \<exists>q'. run_ops (Some q) ops = Some q' \<and> nm_queue_inv q'"
proof (induction ops arbitrary: q)
  case Nil
  then show ?case by (simp add: run_ops_def)
next
  case (Cons op ops)
  from apply_op_inv [OF Cons.prems, of op] obtain q1 where
    "apply_op (Some q) op = Some q1" "nm_queue_inv q1"
    by blast
  with Cons.IH [of q1] show ?case by (simp add: run_ops_def)
qed

text \<open>
  Claim C7. On a queue produced by \<^verbatim>\<open>nm_queue_create\<close>, after any sequence of
  \<^verbatim>\<open>nm_queue_enqueue\<close>, \<^verbatim>\<open>nm_queue_dequeue\<close>, \<^verbatim>\<open>nm_queue_is_empty\<close>, \<^verbatim>\<open>nm_queue_capacity\<close> and
  \<^verbatim>\<open>nm_queue_for_each\<close> calls the handle is still valid and \<open>items_count \<le> capacity\<close>,
  \<open>head < capacity\<close> and \<open>tail < capacity\<close> hold; the empty sequence gives the invariant
  of the created queue itself.
\<close>

theorem nm_queue_inv_preserved:
  assumes "nm_queue_create malloc_ok calloc_ok init_size = Some q"
  shows "\<exists>q'. run_ops (Some q) ops = Some q' \<and> nm_queue_inv q'"
proof -
  from assms have "nm_queue_wf q" by (rule nm_queue_create_wf)
  then have "nm_queue_inv q" by (simp add: nm_queue_wf_def)
  then show ?thesis by (rule run_ops_inv)
qed

theorem nm_queue_inv_preserved_witness:
  "nm_queue_create True True 2 =
     Some \<lparr>items = [NULL, NULL], capacity = 2, head = 0, tail = 0, items_count = 0\<rparr> \<and>
   run_ops (Some \<lparr>items = [NULL, NULL], capacity = 2, head = 0, tail = 0, items_count = 0\<rparr>)
     [Op_enqueue 5, Op_is_empty, Op_enqueue 6, Op_for_each (Some (\<lambda>e c. (1, e # c))) [],
      Op_enqueue 7, Op_dequeue (Some NULL), Op_capacity, Op_enqueue 8] =
     Some \<lparr>items = [8, 6], capacity = 2, head = 1, tail = 1, items_count = 2\<rparr> \<and>
   nm_queue_inv \<lparr>items = [8, 6], capacity = 2, head = 1, tail = 1, items_count = 2\<rparr>"
proof -
  let ?q = "\<lparr>items = [NULL, NULL], capacity = 2, head = 0, tail = 0, items_count = 0\<rparr>"
  let ?ops = "[Op_enqueue 5, Op_is_empty, Op_enqueue 6, Op_for_each (Some (\<lambda>e c. (1, e # c))) [],
      Op_enqueue 7, Op_dequeue (Some NULL), Op_capacity, Op_enqueue 8]"
  have h: "nm_queue_create True True 2 = Some ?q"
  proof -
    have "replicate 2 NULL = [NULL, NULL :: ptr]"
      by (simp add: numeral_2_eq_2)
    then show ?thesis
      by (simp add: nm_queue_create_def)
  qed
  have r: "run_ops (Some ?q) ?ops =
      Some \<lparr>items = [8, 6], capacity = 2, head = 1, tail = 1, items_count = 2\<rparr>"
    by (simp add: run_ops_def nm_queue_enqueue_def nm_queue_dequeue_def)
  from nm_queue_inv_preserved [OF h, of ?ops] h r show ?thesis
    by simp
qed

subsection \<open>NULL handles and failed calls\<close>

text \<open>
  Claim C9. With a \<^verbatim>\<open>NULL\<close> queue handle nothing is read or written and each operation
  returns its sentinel: \<^verbatim>\<open>nm_queue_enqueue\<close> and \<^verbatim>\<open>nm_queue_dequeue\<close> return
  \<open>NM_QUEUE_UNINITIALIZED_ERROR\<close> (the out-variable keeps its value), \<^verbatim>\<open>nm_queue_is_empty\<close>
  returns -1, below both results 0 and 1 it gives for a queue, and \<^verbatim>\<open>nm_queue_capacity\<close> and
  \<^verbatim>\<open>nm_queue_for_each\<close> return \<^verbatim>\<open>(size_t)-1\<close>, the largest \<^verbatim>\<open>size_t\<close>, the visitor not being
  called.
\<close>

theorem nm_queue_null_handle:
  "nm_queue_enqueue None item = (NM_QUEUE_UNINITIALIZED_ERROR, None) \<and>
   nm_queue_dequeue None item_ptr = (NM_QUEUE_UNINITIALIZED_ERROR, None, item_ptr) \<and>
   nm_queue_is_empty None = - 1 \<and>
   nm_queue_is_empty None < 0 \<and> 0 \<le> nm_queue_is_empty (Some q) \<and>
   nm_queue_is_empty (Some q) \<le> 1 \<and>
   nm_queue_capacity None = MAX_SIZE_T \<and>
   nm_queue_for_each None callback context = (MAX_SIZE_T, context, []) \<and>
   unat MAX_SIZE_T = 18446744073709551615"
  by (simp add: nm_queue_enqueue_def nm_queue_dequeue_def nm_queue_is_empty_def
      nm_queue_capacity_def nm_queue_for_each_def
      unsigned_minus_1_eq_mask mask_eq_exp_minus_1)

text \<open>
  Claim C10. Whenever \<^verbatim>\<open>nm_queue_enqueue\<close> or \<^verbatim>\<open>nm_queue_dequeue\<close> returns a status other
  than \<open>NM_QUEUE_SUCCESS\<close>, the queue (\<open>head\<close>, \<open>tail\<close>, \<open>items_count\<close>, the array) is as
  before the call, and so is the dequeue's out-variable.
\<close>

theorem nm_queue_failure_atomic:
  "(fst (nm_queue_enqueue queue item) \<noteq> NM_QUEUE_SUCCESS \<longrightarrow>
      snd (nm_queue_enqueue queue item) = queue) \<and>
   (fst (nm_queue_dequeue queue' item_ptr) \<noteq> NM_QUEUE_SUCCESS \<longrightarrow>
      snd (nm_queue_dequeue queue' item_ptr) = (queue', item_ptr))"
  using enqueue_failure_unchanged [of queue item]
    dequeue_failure_unchanged [of queue' item_ptr]
  by blast

theorem nm_queue_failure_atomic_witness:
  "fst (nm_queue_enqueue
          (Some \<lparr>items = [7], capacity = 1, head = 0, tail = 0, items_count = 1\<rparr>) 9) =
     NM_QUEUE_OVERFLOW_ERROR \<and>
   snd (nm_queue_enqueue
          (Some \<lparr>items = [7], capacity = 1, head = 0, tail = 0, items_count = 1\<rparr>) 9) =
     Some \<lparr>items = [7], capacity = 1, head = 0, tail = 0, items_count = 1\<rparr> \<and>
   fst (nm_queue_dequeue
          (Some \<lparr>items = [NULL], capacity = 1, head = 0, tail = 0, items_count = 0\<rparr>)
          (Some 3)) =
     NM_QUEUE_UNDERFLOW_ERROR \<and>
   snd (nm_queue_dequeue
          (Some \<lparr>items = [NULL], capacity = 1, head = 0, tail = 0, items_count = 0\<rparr>)
          (Some 3)) =
     (Some \<lparr>items = [NULL], capacity = 1, head = 0, tail = 0, items_count = 0\<rparr>, Some 3)"
proof -
  let ?full = "\<lparr>items = [7], capacity = 1, head = 0, tail = 0, items_count = 1\<rparr>"
  let ?empty = "\<lparr>items = [NULL], capacity = 1, head = 0, tail = 0, items_count = 0\<rparr>"
  have e: "fst (nm_queue_enqueue (Some ?full) 9) = NM_QUEUE_OVERFLOW_ERROR"
    by (simp add: nm_queue_enqueue_def)
  have d: "fst (nm_queue_dequeue (Some ?empty) (Some 3)) = NM_QUEUE_UNDERFLOW_ERROR"
    by (simp add: nm_queue_dequeue_def)
  from nm_queue_failure_atomic [of "Some ?full" 9 "Some ?empty" "Some 3"] e d
  show ?thesis by simp
qed

subsection \<open>Iteration\<close>

text \<open>
  When the visitor never returns 0 the loop of \<^verbatim>\<open>nm_queue_for_each\<close> ends on a failed
  test, whose post-decrement takes \<open>items_left\<close> from 0 to \<^verbatim>\<open>(size_t)-1\<close>. The visitor is then
  called \<open>items_count\<close> times and the value returned is \<open>items_count + 1\<close>.
\<close>

lemma for_each_loop_never_stopped:
  assumes "\<And>e c. fst (cb e c) \<noteq> 0"
  shows "fst (for_each_loop q cb c n i x vs) = - 1 \<and>
         length (snd (snd (for_each_loop q cb c n i x vs))) = length vs + unat n"
  using assms
proof (induction q cb c n i x vs rule: for_each_loop.induct)
  case (1 q callback queue_capacity items_left item_idx ctx0 visited)
  show ?case
  proof (cases "items_left > 0")
    case True
    obtain r ctx1 where cb: "callback (items q ! unat item_idx) ctx0 = (r, ctx1)"
      by (cases "callback (items q ! unat item_idx) ctx0")
    from "1.prems" [of "items q ! unat item_idx" ctx0] cb have r: "r \<noteq> 0"
      by simp
    from True have ne: "items_left \<noteq> 0"
      by (simp add: word_neq_0_conv)
    then have pos: "0 < unat items_left"
      by (simp add: unat_gt_0)
    have step: "for_each_loop q callback queue_capacity items_left item_idx ctx0 visited =
        for_each_loop q callback queue_capacity (items_left - 1)
          ((item_idx + 1) mod queue_capacity) ctx1 (visited @ [items q ! unat item_idx])"
      using True cb r by (subst for_each_loop.simps) simp
    from "1.IH" [OF True cb [symmetric] r "1.prems"] pos show ?thesis
      by (simp add: step unat_dec [OF ne])
  next
    case False
    then have "items_left = 0"
      by (simp add: word_neq_0_conv [symmetric])
    then show ?thesis
      by (simp add: for_each_loop.simps)
  qed
qed

lemma nm_queue_for_each_never_stopped:
  assumes "\<And>e c. fst (cb e c) \<noteq> 0"
  shows "fst (nm_queue_for_each (Some q) (Some cb) x) = items_count q + 1 \<and>
         length (snd (snd (nm_queue_for_each (Some q) (Some cb) x))) = unat (items_count q)"
proof -
  obtain n x' vs where
    l: "for_each_loop q cb (capacity q) (items_count q) (head q) x [] = (n, x', vs)"
    by (cases "for_each_loop q cb (capacity q) (items_count q) (head q) x []")
  from for_each_loop_never_stopped [of cb q "capacity q" "items_count q" "head q" x "[]"]
    assms l
  have "n = - 1" and "length vs = unat (items_count q)"
    by simp_all
  with l show ?thesis
    by (simp add: nm_queue_for_each_def)
qed

text \<open>
  On a well-formed queue \<^verbatim>\<open>nm_queue_for_each\<close> visits the buffered items from \<open>head\<close> on,
  oldest first, and stops at the first item on which the visitor returns 0. When the
  visitor stops the visit, the value returned is the number of items visited; when it
  never does, all items are visited and the value returned is \<open>items_count + 1\<close>.
\<close>

lemma for_each_loop_visit:
  assumes "unat n = m" and "unat i = (h + k) mod unat c" and "0 < unat c"
  shows "for_each_loop q cb c n i x vs =
     (case visit_in_order cb (map (\<lambda>j. items q ! ((h + j) mod unat c)) [k ..< k + m]) x of
        (stopped, x', visited) \<Rightarrow>
          (if stopped then n - of_nat (length visited) else - 1, x', vs @ visited))"
  using assms
proof (induction m arbitrary: n i k x vs)
  case 0
  then have "n = 0"
    by (simp add: unat_eq_0)
  then show ?case
    by (simp add: for_each_loop.simps)
next
  case (Suc m)
  let ?e = "items q ! unat i"
  from Suc.prems(1) have ne: "n \<noteq> 0" and pos: "n > 0"
    by (auto simp: word_neq_0_conv [symmetric])
  have left: "unat (n - 1) = m"
    using Suc.prems(1) by (simp add: unat_dec [OF ne])
  have "i < c"
    using Suc.prems(2,3) by (simp add: word_less_nat_alt)
  then have "unat ((i + 1) mod c) = (unat i + 1) mod unat c"
    by (rule unat_inc_mod)
  then have idx: "unat ((i + 1) mod c) = (h + Suc k) mod unat c"
    by (simp add: Suc.prems(2) mod_Suc_eq)
  have upt: "[k ..< k + Suc m] = k # [Suc k ..< Suc k + m]"
    by (simp add: upt_conv_Cons)
  obtain r x1 where cb: "cb ?e x = (r, x1)"
    by (cases "cb ?e x")
  show ?case
  proof (cases "r = 0")
    case True
    then show ?thesis
      using pos cb Suc.prems(2)
      by (subst for_each_loop.simps, subst upt) (simp del: upt_Suc)
  next
    case False
    have "for_each_loop q cb c n i x vs =
        for_each_loop q cb c (n - 1) ((i + 1) mod c) x1 (vs @ [?e])"
      using pos cb False by (subst for_each_loop.simps) simp
    also note Suc.IH [OF left idx Suc.prems(3), of x1 "vs @ [?e]"]
    finally show ?thesis
      using cb False Suc.prems(2)
      by (subst upt) (simp del: upt_Suc split: prod.splits)
  qed
qed


lemma nm_queue_for_each_visit:
  assumes "nm_queue_wf q"
  shows "nm_queue_for_each (Some q) (Some cb) x =
     (case visit_in_order cb (buffered q) x of
        (stopped, x', visited) \<Rightarrow>
          (if stopped then of_nat (length visited) else items_count q + 1, x', visited))"
proof -
  from assms have "unat (head q) < unat (capacity q)"
    by (simp add: nm_queue_wf_def nm_queue_inv_def word_less_nat_alt)
  then have "unat (head q) = (unat (head q) + 0) mod unat (capacity q)"
    and "0 < unat (capacity q)"
    by simp_all
  from for_each_loop_visit [OF refl this, where q = q and cb = cb and x = x and vs = "[]"]
  show ?thesis
    by (simp add: nm_queue_for_each_def buffered_def split: prod.splits)
qed

lemma visit_in_order_prefix:
  "visit_in_order cb xs x = (stopped, x', visited) \<Longrightarrow>
     visited = take (length visited) xs \<and> (\<not> stopped \<longrightarrow> visited = xs) \<and>
     (stopped \<longrightarrow> visited \<noteq> [])"
proof (induction xs arbitrary: x stopped x' visited)
  case Nil
  then show ?case by simp
next
  case (Cons a xs)
  obtain r x1 where cb: "cb a x = (r, x1)"
    by (cases "cb a x")
  show ?case
  proof (cases "r = 0")
    case True
    with Cons.prems cb show ?thesis by auto
  next
    case False
    obtain s1 x2 v1 where v: "visit_in_order cb xs x1 = (s1, x2, v1)"
      by (cases "visit_in_order cb xs x1")
    from Cons.IH [OF v] Cons.prems cb False v show ?thesis
      by auto
  qed
qed

text \<open>
  Claim C4, at a queue of capacity 1 that holds the one item 5, with a visitor that always
  returns 1 and appends the element to its context: the visitor is called once, on 5, and
  \<^verbatim>\<open>nm_queue_for_each\<close> returns 2, not the number 1 of items visited.
\<close>

theorem nm_queue_for_each_returns_one_more:
  "nm_queue_for_each
     (Some \<lparr>items = [5], capacity = 1, head = 0, tail = 0, items_count = 1\<rparr>)
     (Some (\<lambda>e c. (1, c @ [e]))) [] = (2, [5], [5])"
  by (simp add: nm_queue_for_each_def for_each_loop.simps)

section \<open>Properties of the barrier\<close>

text \<open>
  With room below \<^verbatim>\<open>SEM_VALUE_MAX\<close> the posting loop adds one post for every index from \<open>i\<close>
  up to the party size. An arrival at a free mutex increments the counter, posts when the
  incremented counter equals the party size, and frees the mutex again; nothing in it
  writes 0 to the counter.
\<close>

lemma turnstile_posts_eq:
  "s + (unat m - unat i) \<le> SEM_VALUE_MAX \<Longrightarrow> turnstile_posts i m s = s + (unat m - unat i)"
proof (induction i m s rule: turnstile_posts.induct)
  case (1 i max_threads s)
  show ?case
  proof (cases "i < max_threads")
    case True
    then have lt: "unat i < unat max_threads"
      by (simp add: word_less_nat_alt)
    have inc: "unat (i + 1) = unat i + 1"
      using True by (rule unat_inc_lt)
    from lt "1.prems" have post: "sem_post s = s + 1"
      by (simp add: sem_post_def)
    from lt "1.prems" have "sem_post s + (unat max_threads - unat (i + 1)) \<le> SEM_VALUE_MAX"
      by (simp add: post inc)
    from "1.IH" [OF True this] lt show ?thesis
      using True by (subst turnstile_posts.simps) (simp add: post inc)
  next
    case False
    then have "unat max_threads - unat i = 0"
      by (simp add: word_less_nat_alt)
    with False show ?thesis
      by (subst turnstile_posts.simps) simp
  qed
qed

lemma nm_barrier_arrive_free:
  assumes "lock (mtx b) = 1"
  shows "nm_barrier_arrive b =
     Some (b\<lparr>waiting_threads_count := waiting_threads_count b + 1,
             turnstile := (if waiting_threads_count b + 1 = max_threads_count b
                           then turnstile_posts 0 (max_threads_count b) (turnstile b)
                           else turnstile b)\<rparr>)"
  using assms
  by (cases b)
     (simp add: nm_barrier_arrive_def nm_mutex_lock_def nm_mutex_unlock_def sem_wait_def
       sem_post_def SEM_VALUE_MAX_def Let_def)

lemma barrier_run_inv:
  assumes "barrier_run b evs = Some b'"
    and "lock (mtx b) = 1" and "max_threads_count b = n" and "unat n \<le> SEM_VALUE_MAX"
    and "unat (waiting_threads_count b) = a"
    and "turnstile b + p = (if unat n \<le> a then unat n else 0)"
    and "a + count_list evs Arrive < 2 ^ 32"
  shows "lock (mtx b') = 1 \<and> max_threads_count b' = n \<and>
         unat (waiting_threads_count b') = a + count_list evs Arrive \<and>
         turnstile b' + (p + count_list evs Pass) =
           (if unat n \<le> a + count_list evs Arrive then unat n else 0)"
  using assms
proof (induction evs arbitrary: b a p)
  case Nil
  then show ?case by simp
next
  case (Cons e evs)
  show ?case
  proof (cases e)
    case Arrive
    let ?w = "waiting_threads_count b"
    define b1 where "b1 = b\<lparr>waiting_threads_count := ?w + 1,
             turnstile := (if ?w + 1 = max_threads_count b
                           then turnstile_posts 0 (max_threads_count b) (turnstile b)
                           else turnstile b)\<rparr>"
    have step: "nm_barrier_arrive b = Some b1"
      unfolding b1_def using Cons.prems(2) by (rule nm_barrier_arrive_free)
    with Cons.prems(1) Arrive have run: "barrier_run b1 evs = Some b'"
      by simp
    from Cons.prems(7) Arrive have bound: "a + 1 < 2 ^ 32" and
      rest: "(a + 1) + count_list evs Arrive < 2 ^ 32"
      by simp_all
    have "unat ?w + unat (1 :: 32 word) < 2 ^ LENGTH(32)"
      using bound Cons.prems(5) by simp
    then have "unat (?w + 1) = unat ?w + unat (1 :: 32 word)"
      by (rule unat_add_lem [THEN iffD1])
    then have w: "unat (?w + 1) = a + 1"
      using Cons.prems(5) by simp
    then have w1: "unat (waiting_threads_count b1) = a + 1"
      by (simp add: b1_def)
    have eq_iff: "?w + 1 = n \<longleftrightarrow> a + 1 = unat n"
      by (simp add: word_unat_eq_iff w)
    have t1: "turnstile b1 + p = (if unat n \<le> a + 1 then unat n else 0)"
    proof (cases "a + 1 = unat n")
      case True
      with Cons.prems(6) have "turnstile b = 0" and "p = 0"
        by simp_all
      moreover have "turnstile_posts 0 n 0 = unat n"
        using turnstile_posts_eq [of 0 n 0] Cons.prems(4) by simp
      ultimately show ?thesis
        using True eq_iff Cons.prems(3) by (simp add: b1_def)
    next
      case False
      then show ?thesis
        using eq_iff Cons.prems(3,6) by (auto simp: b1_def)
    qed
    have "lock (mtx b1) = 1" "max_threads_count b1 = n"
      using Cons.prems(2,3) by (simp_all add: b1_def)
    from Cons.IH [OF run this Cons.prems(4) w1 t1 rest] show ?thesis
      using Arrive by simp
  next
    case Pass
    with Cons.prems(1) have pos: "turnstile b \<noteq> 0"
      and run: "barrier_run (b\<lparr>turnstile := turnstile b - 1\<rparr>) evs = Some b'"
      by (auto simp: nm_barrier_pass_def sem_wait_def split: if_splits)
    have "turnstile (b\<lparr>turnstile := turnstile b - 1\<rparr>) + (p + 1) =
        (if unat n \<le> a then unat n else 0)"
      using pos Cons.prems(6) by simp
    from Cons.IH [OF run _ _ Cons.prems(4) _ this] Cons.prems(2,3,5,7) show ?thesis
      using Pass by simp
  qed
qed

text \<open>
  A barrier for two parties. After the second arrival the counter is 2, not 0, and the
  turnstile holds two posts. Once both parties are through and two more threads have
  arrived, the counter is 4 and the turnstile 0: neither of the two can pass.
\<close>

theorem nm_barrier_no_reset_counterexample:
  "barrier_run (nm_barrier_init 2) [Arrive, Arrive] =
     Some \<lparr>max_threads_count = 2, waiting_threads_count = 2, mtx = \<lparr>lock = 1\<rparr>,
           turnstile = 2\<rparr> \<and>
   barrier_run (nm_barrier_init 2) [Arrive, Arrive, Pass, Pass, Arrive, Arrive] =
     Some \<lparr>max_threads_count = 2, waiting_threads_count = 4, mtx = \<lparr>lock = 1\<rparr>,
           turnstile = 0\<rparr> \<and>
   barrier_run (nm_barrier_init 2) [Arrive, Arrive, Pass, Pass, Arrive, Arrive, Pass] = None"
  by (simp add: nm_barrier_arrive_def nm_barrier_pass_def nm_barrier_init_def
      nm_mutex_lock_def nm_mutex_unlock_def sem_wait_def sem_post_def SEM_VALUE_MAX_def
      turnstile_posts.simps Let_def)

text \<open>
  A schedule of named threads moves the barrier as the schedule without the names does,
  every pass adds one entry to \<open>returned\<close>, and every arrival that has not been followed
  by its pass is in \<open>parked\<close>.
\<close>

lemma threads_run_shared:
  "threads_run s evs = Some s' \<Longrightarrow>
     barrier_run (shared s) (map anonymous evs) = Some (shared s')"
proof (induction evs arbitrary: s)
  case Nil
  then show ?case by simp
next
  case (Cons e evs)
  from Cons.prems obtain s1 where
    step: "threads_step s e = Some s1" and run: "threads_run s1 evs = Some s'"
    by (auto split: option.splits)
  from step have "barrier_step (shared s) (anonymous e) = Some (shared s1)"
    by (cases e) (auto split: if_splits option.splits)
  with Cons.IH [OF run] show ?case
    by simp
qed

lemma threads_run_counts:
  "threads_run s evs = Some s' \<Longrightarrow>
     length (returned s') = length (returned s) + count_list (map anonymous evs) Pass \<and>
     length (parked s') + count_list (map anonymous evs) Pass =
       length (parked s) + count_list (map anonymous evs) Arrive"
proof (induction evs arbitrary: s)
  case Nil
  then show ?case by simp
next
  case (Cons e evs)
  from Cons.prems obtain s1 where
    step: "threads_step s e = Some s1" and run: "threads_run s1 evs = Some s'"
    by (auto split: option.splits)
  show ?case
  proof (cases e)
    case (Arrives t)
    with step have "length (returned s1) = length (returned s)"
      and "length (parked s1) = length (parked s) + 1"
      by (auto split: if_splits option.splits)
    with Cons.IH [OF run] Arrives show ?thesis
      by simp
  next
    case (Passes t)
    with step have "t \<in> set (parked s)" and "length (returned s1) = length (returned s) + 1"
      and "parked s1 = remove1 t (parked s)"
      by (auto split: if_splits option.splits)
    then have "length (returned s1) = length (returned s) + 1"
      and "length (parked s1) + 1 = length (parked s)"
      by (auto simp: length_remove1 dest: length_pos_if_in_set)
    with Cons.IH [OF run] Passes show ?thesis
      by simp
  qed
qed

lemma threads_run_inv:
  assumes "unat n \<le> SEM_VALUE_MAX"
    and "threads_run (threads_init n) evs = Some s"
    and "arrivals evs < 2 ^ 32"
  shows "unat (waiting_threads_count (shared s)) = arrivals evs"
    and "length (returned s) + turnstile (shared s) =
           (if unat n \<le> arrivals evs then unat n else 0)"
    and "length (parked s) + length (returned s) = arrivals evs"
    and "lock (mtx (shared s)) = 1"
proof -
  let ?evs = "map anonymous evs"
  from threads_run_shared [OF assms(2)]
  have run: "barrier_run (nm_barrier_init n) ?evs = Some (shared s)"
    by (simp add: threads_init_def)
  from barrier_run_inv [where b = "nm_barrier_init n" and n = n and a = 0 and p = 0, OF run]
    assms(1,3)
  have inv: "lock (mtx (shared s)) = 1 \<and>
      unat (waiting_threads_count (shared s)) = count_list ?evs Arrive \<and>
      turnstile (shared s) + count_list ?evs Pass =
        (if unat n \<le> count_list ?evs Arrive then unat n else 0)"
    by (simp add: nm_barrier_init_def arrivals_def)
  from threads_run_counts [OF assms(2)]
  have cnt: "length (returned s) = count_list ?evs Pass"
    "length (parked s) + count_list ?evs Pass = count_list ?evs Arrive"
    by (simp_all add: threads_init_def)
  from inv show "unat (waiting_threads_count (shared s)) = arrivals evs"
    by (simp add: arrivals_def)
  from inv cnt show "length (returned s) + turnstile (shared s) =
           (if unat n \<le> arrivals evs then unat n else 0)"
    by (simp add: arrivals_def add.commute)
  from cnt show "length (parked s) + length (returned s) = arrivals evs"
    by (simp add: arrivals_def)
  from inv show "lock (mtx (shared s)) = 1"
    by simp
qed

text \<open>
  Claim C3, amended. For every barrier whose party size N is at most \<^verbatim>\<open>SEM_VALUE_MAX\<close>,
  and every schedule of calls to \<^verbatim>\<open>nm_barrier_wait\<close> by any threads with fewer than
  \<open>2 ^ 32\<close> arrivals: the arrival counter is the number of arrivals so far, so no arrival
  resets it to 0; the calls that have returned plus the posts pending on the turnstile are
  0 before the N-th arrival and N from the N-th arrival on, and every other call that has
  arrived is parked in \<^verbatim>\<open>nm_barrier_wait\<close>. From the N-th arrival on, while fewer than N
  calls have returned, some thread is parked and each parked thread can get through; once
  N calls have returned no thread can. So the barrier releases N calls in all, once, and
  is not reusable. The N calls released are those that take the posts, which need not be
  the first N to arrive: a thread arriving later can take a post and leave an earlier one
  parked.
\<close>

theorem nm_barrier_releases_once:
  assumes "unat n \<le> SEM_VALUE_MAX"
    and "threads_run (threads_init n) evs = Some s"
    and "arrivals evs < 2 ^ 32"
  shows "unat (waiting_threads_count (shared s)) = arrivals evs \<and>
         length (returned s) + turnstile (shared s) =
           (if unat n \<le> arrivals evs then unat n else 0) \<and>
         length (parked s) + length (returned s) = arrivals evs \<and>
         (unat n \<le> arrivals evs \<and> length (returned s) < unat n \<longrightarrow>
            parked s \<noteq> [] \<and> (\<forall>t \<in> set (parked s). threads_step s (Passes t) \<noteq> None)) \<and>
         (length (returned s) = unat n \<longrightarrow> threads_step s (Passes t) = None)"
proof -
  note inv = threads_run_inv [OF assms]
  have spent: "threads_step s (Passes t) = None" if "length (returned s) = unat n"
  proof -
    from that inv(2) have "turnstile (shared s) = 0"
      by (simp split: if_splits)
    then show ?thesis
      by (simp add: nm_barrier_pass_def sem_wait_def)
  qed
  have pending: "parked s \<noteq> [] \<and> (\<forall>t \<in> set (parked s). threads_step s (Passes t) \<noteq> None)"
    if "unat n \<le> arrivals evs" and "length (returned s) < unat n"
  proof -
    from that inv(2) have "turnstile (shared s) \<noteq> 0"
      by simp
    then have "\<forall>t \<in> set (parked s). threads_step s (Passes t) \<noteq> None"
      by (simp add: nm_barrier_pass_def sem_wait_def)
    moreover from that inv(3) have "parked s \<noteq> []"
      by auto
    ultimately show ?thesis
      by simp
  qed
  from inv(1-3) spent pending show ?thesis
    by blast
qed

theorem nm_barrier_releases_once_witness:
  "threads_run (threads_init 2) [Arrives 1, Arrives 2, Passes 1, Arrives 3, Passes 3] =
     Some \<lparr>shared = \<lparr>max_threads_count = 2, waiting_threads_count = 3, mtx = \<lparr>lock = 1\<rparr>,
                     turnstile = 0\<rparr>,
           parked = [2], returned = [1, 3]\<rparr> \<and>
   arrivals [Arrives 1, Arrives 2, Passes 1, Arrives 3, Passes 3] = 3 \<and>
   threads_run (threads_init 2) [Arrives 1, Arrives 2, Passes 1, Arrives 3, Passes 3, Passes 2] =
     None \<and>
   threads_run (threads_init 2) [Arrives 1, Arrives 2, Passes 1] =
     Some \<lparr>shared = \<lparr>max_threads_count = 2, waiting_threads_count = 2, mtx = \<lparr>lock = 1\<rparr>,
                     turnstile = 1\<rparr>,
           parked = [2], returned = [1]\<rparr> \<and>
   threads_run (threads_init 2) [Arrives 1, Passes 1] = None"
proof -
  let ?a = "[Arrives 1, Arrives 2, Passes 1, Arrives 3, Passes 3]"
  let ?sa = "\<lparr>shared = \<lparr>max_threads_count = 2, waiting_threads_count = 3, mtx = \<lparr>lock = 1\<rparr>,
                     turnstile = 0\<rparr>,
           parked = [2], returned = [1, 3]\<rparr>"
  let ?b = "[Arrives 1, Arrives 2, Passes 1]"
  let ?sb = "\<lparr>shared = \<lparr>max_threads_count = 2, waiting_threads_count = 2, mtx = \<lparr>lock = 1\<rparr>,
                     turnstile = 1\<rparr>,
           parked = [2], returned = [1]\<rparr>"
  note defs = threads_init_def nm_barrier_arrive_def nm_barrier_pass_def nm_barrier_init_def
    nm_mutex_lock_def nm_mutex_unlock_def sem_wait_def sem_post_def SEM_VALUE_MAX_def
    turnstile_posts.simps Let_def
  have n: "unat (2 :: 32 word) \<le> SEM_VALUE_MAX"
    by (simp add: SEM_VALUE_MAX_def)
  have ra: "threads_run (threads_init 2) ?a = Some ?sa"
    by (simp add: defs)
  have rb: "threads_run (threads_init 2) ?b = Some ?sb"
    by (simp add: defs)
  have ca: "arrivals ?a = 3" and cb: "arrivals ?b = 2"
    by (simp_all add: arrivals_def)
  have early: "threads_run (threads_init 2) [Arrives 1, Passes 1] = None"
    by (simp add: defs)
  have la: "arrivals ?a < 2 ^ 32" and lb: "arrivals ?b < 2 ^ 32"
    by (simp_all add: arrivals_def)
  from nm_barrier_releases_once [OF n ra la, of 2] nm_barrier_releases_once [OF n rb lb, of 2]
    ra rb ca early
  show ?thesis
    by (simp add: defs)
qed

text \<open>
  A barrier for one party whose calls do not overlap: from the second call on (and below
  \<open>2 ^ 32\<close> calls) the incremented counter is above 1, the caller posts nothing, finds the
  turnstile at 0 and blocks.
\<close>

lemma nm_barrier_wait_spent:
  assumes "max_threads_count b = 1" and "lock (mtx b) = 1" and "turnstile b = 0"
    and "0 < unat (waiting_threads_count b)" and "unat (waiting_threads_count b) + 1 < 2 ^ 32"
  shows "nm_barrier_wait b = Blocked (b\<lparr>waiting_threads_count := waiting_threads_count b + 1\<rparr>)"
    and "unat (waiting_threads_count b + 1) = unat (waiting_threads_count b) + 1"
proof -
  let ?w = "waiting_threads_count b"
  have "unat ?w + unat (1 :: 32 word) < 2 ^ LENGTH(32)"
    using assms(5) by simp
  then have "unat (?w + 1) = unat ?w + unat (1 :: 32 word)"
    by (rule unat_add_lem [THEN iffD1])
  then show w: "unat (?w + 1) = unat ?w + 1"
    by simp
  with assms(4) have "unat (?w + 1) \<noteq> unat (1 :: 32 word)"
    by simp
  then have "?w + 1 \<noteq> max_threads_count b"
    using assms(1) by (simp add: word_unat_eq_iff)
  then show "nm_barrier_wait b = Blocked (b\<lparr>waiting_threads_count := ?w + 1\<rparr>)"
    using assms(3)
    by (simp add: nm_barrier_wait_def nm_barrier_arrive_free [OF assms(2)] nm_barrier_pass_def
        sem_wait_def)
qed

lemma nm_barrier_wait_calls_spent:
  assumes "max_threads_count b = 1" and "lock (mtx b) = 1" and "turnstile b = 0"
    and "0 < unat (waiting_threads_count b)" and "unat (waiting_threads_count b) + j < 2 ^ 32"
  shows "nm_barrier_wait_calls j b =
     (replicate j False, b\<lparr>waiting_threads_count := waiting_threads_count b + of_nat j\<rparr>)"
  using assms
proof (induction j arbitrary: b)
  case 0
  then show ?case by simp
next
  case (Suc j)
  let ?b1 = "b\<lparr>waiting_threads_count := waiting_threads_count b + 1\<rparr>"
  from Suc.prems have bound: "unat (waiting_threads_count b) + 1 < 2 ^ 32"
    by simp
  note step = nm_barrier_wait_spent [OF Suc.prems(1-4) bound]
  have "nm_barrier_wait_calls j ?b1 =
     (replicate j False, ?b1\<lparr>waiting_threads_count := waiting_threads_count ?b1 + of_nat j\<rparr>)"
    using Suc.prems step(2) by (intro Suc.IH) simp_all
  then show ?case
    by (simp add: step(1) add.assoc)
qed

lemma nm_barrier_wait_calls_one_by_one:
  assumes "0 < k" and "k < 2 ^ 32"
  shows "nm_barrier_wait_calls k (nm_barrier_init 1) =
     (True # replicate (k - 1) False,
      \<lparr>max_threads_count = 1, waiting_threads_count = of_nat k, mtx = \<lparr>lock = 1\<rparr>,
       turnstile = 0\<rparr>)"
proof -
  from assms(1) obtain j where k: "k = Suc j"
    by (cases k) simp_all
  let ?b1 = "\<lparr>max_threads_count = 1, waiting_threads_count = 1, mtx = \<lparr>lock = 1\<rparr>,
       turnstile = 0\<rparr>"
  have first: "nm_barrier_wait (nm_barrier_init 1) = Returned ?b1"
    by (simp add: nm_barrier_wait_def nm_barrier_arrive_def nm_barrier_pass_def
      nm_barrier_init_def nm_mutex_lock_def nm_mutex_unlock_def sem_wait_def sem_post_def
      SEM_VALUE_MAX_def turnstile_posts.simps Let_def)
  have "nm_barrier_wait_calls j ?b1 =
     (replicate j False, ?b1\<lparr>waiting_threads_count := waiting_threads_count ?b1 + of_nat j\<rparr>)"
    using assms(2) k by (intro nm_barrier_wait_calls_spent) simp_all
  then show ?thesis
    by (simp add: k first)
qed

text \<open>
  Claim C8, amended. For a barrier initialised with party size 1: a call that arrives
  first and waits on the turnstile before any other call arrives returns without
  blocking, its own post pending when it waits. Over every schedule of calls by any
  threads with fewer than \<open>2 ^ 32\<close> arrivals at most one call returns, the one that takes
  the single post of the first arrival, which need not be the first caller; every other
  call that has arrived is parked in \<^verbatim>\<open>nm_barrier_wait\<close>, and once one call has returned
  no thread can get through the turnstile: the second call of a thread that calls twice
  blocks.
\<close>

theorem nm_barrier_party_of_one_returns_once:
  assumes "threads_run (threads_init 1) evs = Some s"
    and "arrivals evs < 2 ^ 32"
  shows "threads_run (threads_init 1) [Arrives u, Passes u] =
           Some \<lparr>shared = \<lparr>max_threads_count = 1, waiting_threads_count = 1,
                           mtx = \<lparr>lock = 1\<rparr>, turnstile = 0\<rparr>,
                 parked = [], returned = [u]\<rparr> \<and>
         length (returned s) \<le> 1 \<and>
         length (parked s) + length (returned s) = arrivals evs \<and>
         (length (returned s) = 1 \<longrightarrow> threads_step s (Passes t) = None)"
proof -
  have n: "unat (1 :: 32 word) \<le> SEM_VALUE_MAX"
    by (simp add: SEM_VALUE_MAX_def)
  note inv = threads_run_inv [OF n assms]
  have first: "threads_run (threads_init 1) [Arrives u, Passes u] =
           Some \<lparr>shared = \<lparr>max_threads_count = 1, waiting_threads_count = 1,
                           mtx = \<lparr>lock = 1\<rparr>, turnstile = 0\<rparr>,
                 parked = [], returned = [u]\<rparr>"
    by (simp add: threads_init_def nm_barrier_arrive_def nm_barrier_pass_def
        nm_barrier_init_def nm_mutex_lock_def nm_mutex_unlock_def sem_wait_def sem_post_def
        SEM_VALUE_MAX_def turnstile_posts.simps Let_def)
  from inv(2) have le: "length (returned s) \<le> 1"
    by (simp split: if_splits)
  have "threads_step s (Passes t) = None" if "length (returned s) = 1"
  proof -
    from that inv(2) have "turnstile (shared s) = 0"
      by (simp split: if_splits)
    then show ?thesis
      by (simp add: nm_barrier_pass_def sem_wait_def)
  qed
  with first le inv(3) show ?thesis
    by blast
qed

theorem nm_barrier_party_of_one_returns_once_witness:
  "threads_run (threads_init 1) [Arrives 7, Passes 7, Arrives 7] =
     Some \<lparr>shared = \<lparr>max_threads_count = 1, waiting_threads_count = 2, mtx = \<lparr>lock = 1\<rparr>,
                     turnstile = 0\<rparr>,
           parked = [7], returned = [7]\<rparr> \<and>
   arrivals [Arrives 7, Passes 7, Arrives 7] = 2 \<and>
   threads_run (threads_init 1) [Arrives 7, Passes 7, Arrives 7, Passes 7] = None \<and>
   threads_run (threads_init 1) [Arrives 1, Arrives 2, Passes 2] =
     Some \<lparr>shared = \<lparr>max_threads_count = 1, waiting_threads_count = 2, mtx = \<lparr>lock = 1\<rparr>,
                     turnstile = 0\<rparr>,
           parked = [1], returned = [2]\<rparr> \<and>
   threads_run (threads_init 1) [Arrives 1, Arrives 2, Passes 2, Passes 1] = None"
proof -
  let ?a = "[Arrives 7, Passes 7, Arrives 7]"
  let ?sa = "\<lparr>shared = \<lparr>max_threads_count = 1, waiting_threads_count = 2, mtx = \<lparr>lock = 1\<rparr>,
                     turnstile = 0\<rparr>,
           parked = [7], returned = [7]\<rparr>"
  let ?b = "[Arrives 1, Arrives 2, Passes 2]"
  let ?sb = "\<lparr>shared = \<lparr>max_threads_count = 1, waiting_threads_count = 2, mtx = \<lparr>lock = 1\<rparr>,
                     turnstile = 0\<rparr>,
           parked = [1], returned = [2]\<rparr>"
  note defs = threads_init_def nm_barrier_arrive_def nm_barrier_pass_def nm_barrier_init_def
    nm_mutex_lock_def nm_mutex_unlock_def sem_wait_def sem_post_def SEM_VALUE_MAX_def
    turnstile_posts.simps Let_def
  have ra: "threads_run (threads_init 1) ?a = Some ?sa"
    by (simp add: defs)
  have rb: "threads_run (threads_init 1) ?b = Some ?sb"
    by (simp add: defs)
  have ca: "arrivals ?a = 2" and cb: "arrivals ?b = 2"
    by (simp_all add: arrivals_def)
  have la: "arrivals ?a < 2 ^ 32" and lb: "arrivals ?b < 2 ^ 32"
    by (simp_all add: arrivals_def)
  from nm_barrier_party_of_one_returns_once [OF ra la, of 7 7]
    nm_barrier_party_of_one_returns_once [OF rb lb, of 1 1] ra rb ca
  show ?thesis
    by (simp add: defs)
qed

text \<open>
  Two calls on a barrier of party size 1: the first returns, the second does not.
\<close>

theorem nm_barrier_party_of_one_counterexample:
  "nm_barrier_wait_calls 2 (nm_barrier_init 1) =
     ([True, False],
      \<lparr>max_threads_count = 1, waiting_threads_count = 2, mtx = \<lparr>lock = 1\<rparr>,
       turnstile = 0\<rparr>)"
  by (simp add: numeral_2_eq_2 nm_barrier_wait_def nm_barrier_arrive_def nm_barrier_pass_def
      nm_barrier_init_def nm_mutex_lock_def nm_mutex_unlock_def sem_wait_def sem_post_def
      SEM_VALUE_MAX_def turnstile_posts.simps Let_def)

end
